theory Spec2Isabelle
  imports Main "HOL-Library.Word"
begin

unbundle bit_operations_syntax

section \<open>Outcomes of a call\<close>

text \<open>
  The package works on Go's \<open>*big.Int\<close> and \<open>[]byte\<close>.  Unbounded integers are \<open>int\<close>,
  a byte is an \<open>8 word\<close>.  A run-time panic of the Go program is a value \<open>Inl\<close> of the
  result; the three \<open>errors.New\<close> values of \<open>DecompressPoint\<close> are a datatype of their own,
  so that a panic and a returned error cannot be confused.  A loop that does not end is
  the value \<open>None\<close> of an enclosing option.
\<close>

datatype panic = DivisionByZero | NilDereference | IndexOutOfRange

datatype error = InvalidHeader | RequireKeySize | NotOnCurve

definition pbind :: "panic + 'a \<Rightarrow> ('a \<Rightarrow> panic + 'b) \<Rightarrow> panic + 'b" where
  "pbind m f = (case m of Inl e \<Rightarrow> Inl e | Inr v \<Rightarrow> f v)"

section \<open>The operations of math/big that the package calls\<close>

text \<open>
  \<open>big.Int.Mod\<close> is the Euclidean modulus: for \<open>m \<noteq> 0\<close> the result lies in \<open>[0, |m|)\<close>.
  For \<open>m = 0\<close> Go panics with a division by zero; every function below tests that
  where its first modular operation stands, and only then uses \<open>big_Mod\<close>.
\<close>

definition big_Mod :: "int \<Rightarrow> int \<Rightarrow> int" where
  "big_Mod x m = x mod \<bar>m\<bar>"

text \<open>
  \<open>big.Int.ModInverse g n\<close>: the sign of \<open>n\<close> is ignored, a negative \<open>g\<close> is reduced first
  with \<open>Mod(g, n)\<close>, and the result is \<open>nil\<close> (\<open>None\<close>) when \<open>g\<close> and \<open>n\<close> are not relatively
  prime; otherwise it is the inverse in \<open>[0, |n|)\<close>.  For \<open>n = 0\<close> the reduction of a negative
  \<open>g\<close> is a division by zero, which the caller tests before it uses \<open>big_ModInverse\<close>; for
  \<open>n = 0\<close> and \<open>g \<ge> 0\<close> the greatest common divisor is \<open>g\<close>, so the result is \<open>nil\<close> unless
  \<open>g = 1\<close>, and \<open>1\<close> for \<open>g = 1\<close>.
\<close>

definition big_ModInverse :: "int \<Rightarrow> int \<Rightarrow> int option" where
  "big_ModInverse g n =
     (let n' = \<bar>n\<bar>;
          g' = (if g < 0 then g mod n' else g)
      in if gcd g' n' \<noteq> 1 then None
         else Some (fst (bezw (nat g') (nat n')) mod n'))"

text \<open>
  \<open>z.Exp(x, y, m)\<close>, as the value of the receiver \<open>z\<close> after the call (the package never
  uses the returned pointer of a call that can give \<open>nil\<close>).  A modulus \<open>nil\<close> is \<open>None\<close>.
  Without a modulus (\<open>nil\<close> or 0) the result is \<open>x ^ y\<close>, and 1 for \<open>y \<le> 0\<close>.  With a modulus
  and \<open>y < 0\<close> the base is inverted first, and \<open>z\<close> stays as it was when there is no inverse.
\<close>

definition big_Exp :: "int \<Rightarrow> int \<Rightarrow> int \<Rightarrow> int option \<Rightarrow> int" where
  "big_Exp z x y m =
     (if m = None \<or> m = Some 0 then (if y \<le> 0 then 1 else x ^ nat y)
      else if y < 0 then
        (case big_ModInverse x (the m) of
           None \<Rightarrow> z
         | Some xinv \<Rightarrow> big_Mod (xinv ^ nat (- y)) (the m))
      else big_Mod (x ^ nat y) (the m))"

text \<open>\<open>big.Int.SetBytes\<close>: the big-endian unsigned value of a byte slice.\<close>

definition big_SetBytes :: "8 word list \<Rightarrow> int" where
  "big_SetBytes bs = foldl (\<lambda>acc b. acc * 256 + uint b) 0 bs"

text \<open>
  \<open>big.Int.Bytes\<close>: the absolute value as a big-endian byte slice of minimal length
  (empty for 0).
\<close>

function Bytes_from :: "nat \<Rightarrow> 8 word list \<Rightarrow> 8 word list" where
  "Bytes_from n acc = (if n = 0 then acc else Bytes_from (n div 256) (of_nat (n mod 256) # acc))"
  by pat_completeness auto
termination
  by (relation "measure fst") auto

declare Bytes_from.simps [simp del]

definition big_Bytes :: "int \<Rightarrow> 8 word list" where
  "big_Bytes x = Bytes_from (nat \<bar>x\<bar>) []"

section \<open>Curves\<close>

record Curve =
  P :: int
  N :: int
  B :: int
  Gx :: int
  Gy :: int
  BitSize :: int

text \<open>The parameter sets of \<open>initS160\<close>, \<open>initS192\<close>, \<open>initS224\<close> and \<open>initS256\<close>.\<close>

definition secp160k1 :: Curve where
  "secp160k1 = \<lparr>
     P = 0xFFFFFFFFFFFFFFFFFFFFFFFFFFFFFFFEFFFFAC73,
     N = 0x0100000000000000000001B8FA16DFAB9ACA16B6B3,
     B = 0x0000000000000000000000000000000000000007,
     Gx = 0x3B4C382CE37AA192A4019E763036F4F5DD4D7EBB,
     Gy = 0x938CF935318FDCED6BC28286531733C3F03C4FEE,
     BitSize = 160 \<rparr>"

definition secp192k1 :: Curve where
  "secp192k1 = \<lparr>
     P = 0xFFFFFFFFFFFFFFFFFFFFFFFFFFFFFFFFFFFFFFFEFFFFEE37,
     N = 0xFFFFFFFFFFFFFFFFFFFFFFFE26F2FC170F69466A74DEFD8D,
     B = 0x000000000000000000000000000000000000000000000003,
     Gx = 0xDB4FF10EC057E9AE26B07D0280B7F4341DA5D1B1EAE06C7D,
     Gy = 0x9B2F2F6D9C5628A7844163D015BE86344082AA88D95E2F9D,
     BitSize = 192 \<rparr>"

definition secp224k1 :: Curve where
  "secp224k1 = \<lparr>
     P = 0xFFFFFFFFFFFFFFFFFFFFFFFFFFFFFFFFFFFFFFFFFFFFFFFEFFFFE56D,
     N = 0x010000000000000000000000000001DCE8D2EC6184CAF0A971769FB1F7,
     B = 0x00000000000000000000000000000000000000000000000000000005,
     Gx = 0xA1455B334DF099DF30FC28A169A467E9E47075A90F7E650EB6B7A45C,
     Gy = 0x7E089FED7FBA344282CAFBD6F7E319F7C0B0BD59E2CA4BDB556D61A5,
     BitSize = 224 \<rparr>"

definition secp256k1 :: Curve where
  "secp256k1 = \<lparr>
     P = 0xFFFFFFFFFFFFFFFFFFFFFFFFFFFFFFFFFFFFFFFFFFFFFFFFFFFFFFFEFFFFFC2F,
     N = 0xFFFFFFFFFFFFFFFFFFFFFFFFFFFFFFFEBAAEDCE6AF48A03BBFD25E8CD0364141,
     B = 0x0000000000000000000000000000000000000000000000000000000000000007,
     Gx = 0x79BE667EF9DCBBAC55A06295CE870B07029BFCDB2DCE28D959F2815B16F81798,
     Gy = 0x483ADA7726A3C4655DA4FBFC0E1108A8FD17B448A68554199C47D08FFB10D4B8,
     BitSize = 256 \<rparr>"

text \<open>What \<open>initAll\<close> registers: the curves that \<open>S160\<close>, \<open>S192\<close>, \<open>S224\<close>, \<open>S256\<close> return.\<close>

definition initAll :: "Curve list" where
  "initAll = [secp160k1, secp192k1, secp224k1, secp256k1]"

section \<open>Jacobian arithmetic\<close>

definition IsOnCurve :: "Curve \<Rightarrow> int \<Rightarrow> int \<Rightarrow> panic + bool" where
  "IsOnCurve curve x y =
     (if P curve = 0 then Inl DivisionByZero
      else
        let y2 = y * y;
            y2 = big_Mod y2 (P curve);
            x3 = x * x;
            x3 = x3 * x;
            x3 = x3 + B curve;
            x3 = big_Mod x3 (P curve)
        in Inr (x3 = y2))"

text \<open>
  \<open>affineFromJacobian\<close>: \<open>ModInverse\<close> returns \<open>nil\<close> for a \<open>z\<close> without inverse, and the
  multiplication \<open>Mul(zinv, zinv)\<close> that follows dereferences it.  The call of \<open>ModInverse\<close>
  comes first also for \<open>P = 0\<close>: there it divides by zero for a negative \<open>z\<close>, returns \<open>nil\<close>
  for \<open>z = 0\<close> and for \<open>z > 1\<close>, and returns \<open>1\<close> for \<open>z = 1\<close>, after which \<open>xOut.Mod(xOut, P)\<close>
  divides by zero.
\<close>

definition affineFromJacobian :: "Curve \<Rightarrow> int \<Rightarrow> int \<Rightarrow> int \<Rightarrow> panic + (int \<times> int)" where
  "affineFromJacobian curve x y z =
     (if P curve = 0 \<and> z < 0 then Inl DivisionByZero
      else case big_ModInverse z (P curve) of
        None \<Rightarrow> Inl NilDereference
      | Some zinv \<Rightarrow>
          if P curve = 0 then Inl DivisionByZero
          else
            let zinvsq = zinv * zinv;
                xOut = x * zinvsq;
                xOut = big_Mod xOut (P curve);
                zinvsq = zinvsq * zinv;
                yOut = y * zinvsq;
                yOut = big_Mod yOut (P curve)
            in Inr (xOut, yOut))"

definition addJacobian ::
  "Curve \<Rightarrow> int \<Rightarrow> int \<Rightarrow> int \<Rightarrow> int \<Rightarrow> int \<Rightarrow> int \<Rightarrow> panic + (int \<times> int \<times> int)" where
  "addJacobian curve x1 y1 z1 x2 y2 z2 =
     (if P curve = 0 then Inl DivisionByZero
      else
        let z1z1 = z1 * z1;
            z1z1 = big_Mod z1z1 (P curve);
            z2z2 = z2 * z2;
            z2z2 = big_Mod z2z2 (P curve);
            u1 = x1 * z2z2;
            u1 = big_Mod u1 (P curve);
            u2 = x2 * z1z1;
            u2 = big_Mod u2 (P curve);
            h = u2 - u1;
            h = (if h < 0 then h + P curve else h);
            i = push_bit 1 h;
            i = i * i;
            j = h * i;
            s1 = y1 * z2;
            s1 = s1 * z2z2;
            s1 = big_Mod s1 (P curve);
            s2 = y2 * z1;
            s2 = s2 * z1z1;
            s2 = big_Mod s2 (P curve);
            r = s2 - s1;
            r = (if r < 0 then r + P curve else r);
            r = push_bit 1 r;
            v = u1 * i;
            x3 = r;
            x3 = x3 * x3;
            x3 = x3 - j;
            x3 = x3 - v;
            x3 = x3 - v;
            x3 = big_Mod x3 (P curve);
            y3 = r;
            v = v - x3;
            y3 = y3 * v;
            s1 = s1 * j;
            s1 = push_bit 1 s1;
            y3 = y3 - s1;
            y3 = big_Mod y3 (P curve);
            z3 = z1 + z2;
            z3 = z3 * z3;
            z3 = z3 - z1z1;
            z3 = (if z3 < 0 then z3 + P curve else z3);
            z3 = z3 - z2z2;
            z3 = (if z3 < 0 then z3 + P curve else z3);
            z3 = z3 * h;
            z3 = big_Mod z3 (P curve)
        in Inr (x3, y3, z3))"

definition Add :: "Curve \<Rightarrow> int \<Rightarrow> int \<Rightarrow> int \<Rightarrow> int \<Rightarrow> panic + (int \<times> int)" where
  "Add curve x1 y1 x2 y2 =
     (let z = 1
      in pbind (addJacobian curve x1 y1 z x2 y2 z) (\<lambda>(x, y, z). affineFromJacobian curve x y z))"

definition doubleJacobian :: "Curve \<Rightarrow> int \<Rightarrow> int \<Rightarrow> int \<Rightarrow> panic + (int \<times> int \<times> int)" where
  "doubleJacobian curve x y z =
     (if P curve = 0 then Inl DivisionByZero
      else
        let a = x * x;
            b = y * y;
            c = b * b;
            d = x + b;
            d = d * d;
            d = d - a;
            d = d - c;
            d = d * 2;
            e = 3 * a;
            f = e * e;
            x3 = 2 * d;
            x3 = f - x3;
            x3 = big_Mod x3 (P curve);
            y3 = d - x3;
            y3 = e * y3;
            y3 = y3 - 8 * c;
            y3 = big_Mod y3 (P curve);
            z3 = y * z;
            z3 = 2 * z3;
            z3 = big_Mod z3 (P curve)
        in Inr (x3, y3, z3))"

definition Double :: "Curve \<Rightarrow> int \<Rightarrow> int \<Rightarrow> panic + (int \<times> int)" where
  "Double curve x1 y1 =
     (let z1 = 1
      in pbind (doubleJacobian curve x1 y1 z1) (\<lambda>(x, y, z). affineFromJacobian curve x y z))"

section \<open>Scalar multiplication\<close>

text \<open>
  The state of the two loops of \<open>ScalarMult\<close> is \<open>(x, y, z, seenFirstTrue)\<close>.  The inner loop
  runs \<open>bitNum\<close> from 0 to 7 and shifts \<open>byte\<close> left at the end of each round.
\<close>

function bit_loop ::
  "Curve \<Rightarrow> int \<Rightarrow> int \<Rightarrow> int \<Rightarrow> nat \<Rightarrow> 8 word \<Rightarrow> int \<times> int \<times> int \<times> bool
     \<Rightarrow> panic + (int \<times> int \<times> int \<times> bool)" where
  "bit_loop curve Bx By Bz bitNum byte (x, y, z, seenFirstTrue) =
     (if bitNum < 8 then
        pbind (if seenFirstTrue then doubleJacobian curve x y z else Inr (x, y, z))
          (\<lambda>(x, y, z).
        pbind (if byte AND 0x80 = 0x80 then
                 (if \<not> seenFirstTrue then Inr (x, y, z, True)
                  else pbind (addJacobian curve Bx By Bz x y z)
                         (\<lambda>(x, y, z). Inr (x, y, z, seenFirstTrue)))
               else Inr (x, y, z, seenFirstTrue))
          (\<lambda>st. bit_loop curve Bx By Bz (bitNum + 1) (push_bit 1 byte) st))
      else Inr (x, y, z, seenFirstTrue))"
  by pat_completeness auto
termination
  by (relation "measure (\<lambda>(curve, Bx, By, Bz, bitNum, byte, st). 8 - bitNum)") auto

declare bit_loop.simps [simp del]

fun byte_loop ::
  "Curve \<Rightarrow> int \<Rightarrow> int \<Rightarrow> int \<Rightarrow> 8 word list \<Rightarrow> int \<times> int \<times> int \<times> bool
     \<Rightarrow> panic + (int \<times> int \<times> int \<times> bool)" where
  "byte_loop curve Bx By Bz [] st = Inr st"
| "byte_loop curve Bx By Bz (byte # k) st =
     pbind (bit_loop curve Bx By Bz 0 byte st) (byte_loop curve Bx By Bz k)"

text \<open>\<open>ScalarMult\<close> returns \<open>nil, nil\<close> (\<open>Inr None\<close>) when no bit of \<open>k\<close> is set.\<close>

definition ScalarMult :: "Curve \<Rightarrow> int \<Rightarrow> int \<Rightarrow> 8 word list \<Rightarrow> panic + (int \<times> int) option" where
  "ScalarMult curve Bx By k =
     (let Bz = 1;
          x = Bx;
          y = By;
          z = Bz;
          seenFirstTrue = False
      in pbind (byte_loop curve Bx By Bz k (x, y, z, seenFirstTrue))
           (\<lambda>(x, y, z, seenFirstTrue).
              if \<not> seenFirstTrue then Inr None
              else pbind (affineFromJacobian curve x y z) (\<lambda>xy. Inr (Some xy))))"

definition ScalarBaseMult :: "Curve \<Rightarrow> 8 word list \<Rightarrow> panic + (int \<times> int) option" where
  "ScalarBaseMult curve k = ScalarMult curve (Gx curve) (Gy curve) k"

section \<open>Square roots modulo \<open>P\<close>\<close>

definition legendre_symbol :: "int \<Rightarrow> int \<Rightarrow> panic + int" where
  "legendre_symbol a p =
     (if p = 0 then Inl DivisionByZero
      else
        let ls = big_Mod a p
        in if ls = 0 then Inr 0
           else
             let ps = p - 1;
                 ls = ps div 2;
                 ls = big_Exp ls a ls (Some p)
             in if ls = ps then Inr (- 1) else Inr 1)"

text \<open>
  The three loops of the general path of \<open>Sqrt\<close>.  None of them has a bound in the source,
  so each is a partial function: \<open>None\<close> is a loop that never ends.  They run only after
  \<open>legendre_symbol a p\<close> has returned, hence with \<open>p \<noteq> 0\<close>.
\<close>

partial_function (option) split_twos :: "int \<Rightarrow> int \<Rightarrow> (int \<times> int) option" where
  "split_twos s e = (if s mod 2 = 0 then split_twos (s div 2) (e + 1) else Some (s, e))"

partial_function (option) find_n :: "int \<Rightarrow> int \<Rightarrow> int option" where
  "find_n n p = (if legendre_symbol n p \<noteq> Inr (- 1) then find_n (n + 1) p else Some n)"

text \<open>The inner loop \<open>for ; m.Cmp(r) < 0; m.Add(m, ONE)\<close>, on the pair \<open>(t, m)\<close>.\<close>

function find_m :: "int \<Rightarrow> int \<Rightarrow> int \<Rightarrow> int \<Rightarrow> int \<times> int" where
  "find_m p r t m =
     (if m < r then
        (if t = 1 then (t, m) else find_m p r (big_Exp t t 2 (Some p)) (m + 1))
      else (t, m))"
  by pat_completeness auto
termination
  by (relation "measure (\<lambda>(p, r, t, m). nat (r - m))") auto

declare find_m.simps [simp del]

partial_function (option) shanks_loop :: "int \<Rightarrow> int \<Rightarrow> int \<Rightarrow> int \<Rightarrow> int \<Rightarrow> int option" where
  "shanks_loop p x b g r =
     (let t = b;
          m = 0;
          (t, m) = find_m p r t m
      in if m = 0 then Some x
         else
           let gs = r - m;
               gs = gs - 1;
               gs = big_Exp gs 2 gs None;
               gs = big_Exp gs g gs (Some p);
               g = big_Mod (gs * gs) p;
               x = big_Mod (x * gs) p;
               b = big_Mod (b * g) p;
               r = m
           in shanks_loop p x b g r)"

definition Sqrt :: "Curve \<Rightarrow> int \<Rightarrow> (panic + int) option" where
  "Sqrt curve a =
     (let p = P curve
      in case legendre_symbol a p of
           Inl e \<Rightarrow> Some (Inl e)
         | Inr l \<Rightarrow>
             if l \<noteq> 1 then Some (Inr 0)
             else if a = 0 then Some (Inr 0)
             else if p = 2 then Some (Inr p)
             else if p mod 4 = 3 then
               (let c = p + 1;
                    c = c div 4;
                    c = big_Exp c a c (Some p)
                in Some (Inr c))
             else
               Option.bind (split_twos (p - 1) 0) (\<lambda>(s, e).
               Option.bind (find_n 2 p) (\<lambda>n.
                 let x = s + 1;
                     x = x div 2;
                     x = big_Exp x a x (Some p);
                     b = big_Exp 0 a s (Some p);
                     g = big_Exp 0 n s (Some p);
                     r = e
                 in map_option Inr (shanks_loop p x b g r))))"

section \<open>Point compression\<close>

definition CompressPoint :: "Curve \<Rightarrow> int \<Rightarrow> int \<Rightarrow> 8 word list" where
  "CompressPoint curve X Y =
     (let by = Y AND 1;
          bx = big_Bytes X
      in (if by = 1 then 3 else 2) # bx)"

text \<open>
  \<open>DecompressPoint\<close> returns \<open>(X, Y, err)\<close>: \<open>Inl\<close> of an error stands for \<open>nil, nil, err\<close>, and
  \<open>Inr\<close> for a \<open>nil\<close> error with the pair that \<open>elliptic.Unmarshal\<close> or the square root gave
  (\<open>None\<close> is the \<open>nil, nil\<close> of \<open>Unmarshal\<close>).  \<open>elliptic.Unmarshal\<close> belongs to Go's library
  and is a parameter here.  The switch reads \<open>cp[0]\<close> first: on an empty slice that is an
  index out of range.  \<open>decompress_from\<close> is the code after the switch, reached from the
  cases \<open>0x03\<close> and \<open>0x02\<close> with \<open>c = 1\<close> and \<open>c = 0\<close>.
\<close>

definition decompress_from ::
  "Curve \<Rightarrow> 8 word list \<Rightarrow> int \<Rightarrow> (panic + (error + (int \<times> int) option)) option" where
  "decompress_from curve cp c =
     (let byteLen = drop_bit 3 (BitSize curve + 7)
      in if int (length cp) \<noteq> 1 + byteLen then Some (Inr (Inl RequireKeySize))
         else if P curve = 0 then Some (Inl DivisionByZero)
         else
           let X = big_SetBytes (drop 1 cp);
               Y = big_Mod (X * X) (P curve);
               Y = big_Mod (Y * X) (P curve);
               Y = big_Mod (Y + B curve) (P curve)
           in case Sqrt curve Y of
                None \<Rightarrow> None
              | Some (Inl e) \<Rightarrow> Some (Inl e)
              | Some (Inr Y) \<Rightarrow>
                  if Y = 0 then Some (Inr (Inl NotOnCurve))
                  else
                    let Y = (if c \<noteq> Y AND 1 then P curve - Y else Y)
                    in Some (Inr (Inr (Some (X, Y)))))"

definition DecompressPoint ::
  "(Curve \<Rightarrow> 8 word list \<Rightarrow> panic + (int \<times> int) option) \<Rightarrow> Curve \<Rightarrow> 8 word list
     \<Rightarrow> (panic + (error + (int \<times> int) option)) option" where
  "DecompressPoint Unmarshal curve cp =
     (case cp of
        [] \<Rightarrow> Some (Inl IndexOutOfRange)
      | tag # rest \<Rightarrow>
          if tag = 0x03 then decompress_from curve cp 1
          else if tag = 0x02 then decompress_from curve cp 0
          else if tag = 0x04 then Some (pbind (Unmarshal curve cp) (\<lambda>XY. Inr (Inr XY)))
          else Some (Inr (Inl InvalidHeader)))"

section \<open>The doubling formula as the specification writes it\<close>

text \<open>
  The specification gives the doubling in closed form: \<open>a = x\<^sup>2\<close>, \<open>b = y\<^sup>2\<close>, \<open>c = b\<^sup>2\<close>,
  \<open>d = 2((x + b)\<^sup>2 - a - c)\<close>, \<open>e = 3a\<close>, \<open>f = e\<^sup>2\<close>, \<open>x3 = f - 2d\<close>, \<open>y3 = e(d - x3) - 8c\<close>,
  \<open>z3 = 2yz\<close>, each of the three results reduced modulo \<open>p\<close>.
\<close>

definition double_formula :: "int \<Rightarrow> int \<Rightarrow> int \<Rightarrow> int \<Rightarrow> int \<times> int \<times> int" where
  "double_formula p x y z =
     (let a = x\<^sup>2;
          b = y\<^sup>2;
          c = b\<^sup>2;
          d = 2 * ((x + b)\<^sup>2 - a - c);
          e = 3 * a;
          f = e\<^sup>2;
          x3 = (f - 2 * d) mod p;
          y3 = (e * (d - x3) - 8 * c) mod p;
          z3 = (2 * y * z) mod p
      in (x3, y3, z3))"

section \<open>The homomorphism property as the specification states it\<close>

text \<open>
  The specification compares \<open>ScalarMult(G, (k1 + k2) mod N)\<close> with \<open>Add\<close> applied to
  \<open>ScalarMult(G, k1)\<close> and \<open>ScalarMult(G, k2)\<close>.  \<open>add_multiples\<close> is that right-hand side: the
  two multiples of the generator, then \<open>Add\<close> on their coordinates.  A \<open>nil, nil\<close> multiple
  handed to \<open>Add\<close> is a nil dereference.
\<close>

definition add_multiples :: "Curve \<Rightarrow> 8 word list \<Rightarrow> 8 word list \<Rightarrow> panic + (int \<times> int) option" where
  "add_multiples c k1 k2 =
     pbind (ScalarBaseMult c k1) (\<lambda>m1.
     pbind (ScalarBaseMult c k2) (\<lambda>m2.
       case (m1, m2) of
         (Some (x1, y1), Some (x2, y2)) \<Rightarrow> pbind (Add c x1 y1 x2 y2) (\<lambda>xy. Inr (Some xy))
       | _ \<Rightarrow> Inl NilDereference))"

section \<open>Notions of number theory used in the statements and proofs\<close>

text \<open>
  Primes and quadratic residues over \<open>int\<close>, as the statements about \<open>Sqrt\<close> need them.  A
  residue here includes 0: \<open>a\<close> is a residue when some \<open>r\<close> has \<open>r\<^sup>2 \<equiv> a (mod p)\<close>.
\<close>

definition prime_int :: "int \<Rightarrow> bool" where
  "prime_int p \<longleftrightarrow> 1 < p \<and> (\<forall>d. d dvd p \<longrightarrow> \<bar>d\<bar> = 1 \<or> \<bar>d\<bar> = p)"

definition is_residue :: "int \<Rightarrow> int \<Rightarrow> bool" where
  "is_residue a p \<longleftrightarrow> (\<exists>r. (r * r) mod p = a mod p)"

text \<open>
  Polynomials as coefficient lists, lowest degree first, with evaluation and the division
  by \<open>x - a\<close>; \<open>roots p cs\<close> are the zeros modulo \<open>p\<close> in \<open>[0, p)\<close>.  They serve only the bound
  on the number of roots, from which a quadratic non-residue is obtained.
\<close>

fun peval :: "int list \<Rightarrow> int \<Rightarrow> int" where
  "peval [] x = 0"
| "peval (c # cs) x = c + x * peval cs x"

fun pdiv :: "int list \<Rightarrow> int \<Rightarrow> int list" where
  "pdiv [] a = []"
| "pdiv [c] a = []"
| "pdiv (c # d # cs) a = peval (d # cs) a # pdiv (d # cs) a"

definition roots :: "int \<Rightarrow> int list \<Rightarrow> int set" where
  "roots p cs = {x. 0 \<le> x \<and> x < p \<and> p dvd peval cs x}"

section \<open>Arithmetic on the literal parameters\<close>

text \<open>
  The simplifier divides long numerals slowly.  A remainder is therefore checked from its
  quotient: \<open>a = q * p + r\<close> with \<open>0 \<le> r < p\<close>, which needs products and sums only.
\<close>

lemmas num_arith = numeral_times_numeral numeral_plus_numeral numeral_eq_iff numeral_less_iff
  numeral_le_iff zero_less_numeral zero_le_numeral semiring_norm

lemma mod_cert: "a = q * p + r \<Longrightarrow> 0 \<le> r \<Longrightarrow> r < p \<Longrightarrow> a mod p = (r::int)"
  by (simp add: mod_pos_pos_trivial)

section \<open>The base points lie on their curves\<close>

lemma IsOnCurve_cert:
  assumes "0 < P c" and "y * y = q1 * P c + r" and "x * x * x + B c = q2 * P c + r"
    and "0 \<le> r" and "r < P c"
  shows "IsOnCurve c x y = Inr True"
proof -
  have "(y * y) mod P c = r" "(x * x * x + B c) mod P c = r"
    using assms by (simp_all add: mod_cert)
  with assms(1) show ?thesis
    by (simp add: IsOnCurve_def big_Mod_def Let_def)
qed

lemma secp160k1_base_point: "IsOnCurve secp160k1 (Gx secp160k1) (Gy secp160k1) = Inr True"
  by (rule IsOnCurve_cert [where ?q1.0 = "0x550B33D49BB1F289B85EF7FF79F2A6C1C5465BF8"
        and ?q2.0 = "0x32E77EEF8FC433BFAEFA1F0769611437E5E5DC52B8C18938E31D58BBF53054F0A09BBF456301DDA"
        and r = "0x91D5A0A5F395084F0F26668431ECC44F4816D0DC"];
      simp only: secp160k1_def Curve.select_convs num_arith)

lemma secp192k1_base_point: "IsOnCurve secp192k1 (Gx secp192k1) (Gy secp192k1) = Inr True"
  by (rule IsOnCurve_cert [where ?q1.0 = "0x5E122C212E592B33EB6EFEA2C3436E2DF1F6F227CCADAC52"
        and ?q2.0 = "0xA0F4E5BA9409AEDAB5E56107B2723AC7AB4A930D106A6B18A22381734BED798A78A8C4DD4CE49A687D4C42190E2722AB"
        and r = "0xA1D31FA544F1F56FCA9736CC24A71A63CCFA5C5866F4C4AB"];
      simp only: secp192k1_def Curve.select_convs num_arith)

lemma secp224k1_base_point: "IsOnCurve secp224k1 (Gx secp224k1) (Gy secp224k1) = Inr True"
  by (rule IsOnCurve_cert [where ?q1.0 = "0x3E0C7DB82C7C2813C851A57FA334EAF3FE095D90FEEC0D8EE5A7B5EA"
        and ?q2.0 = "0x4000503EF2709B546E33C4A3BD756CCB2ED7148E18CA35B5E0ECC6392622B3337F65C63CF862EB5455602A36FE88135945B1FF2D47EF3186"
        and r = "0x99FAFC01857DF9379879A2635759A72C8C5B396E09D5922CC587ADB7"];
      simp only: secp224k1_def Curve.select_convs num_arith)

lemma secp256k1_base_point: "IsOnCurve secp256k1 (Gx secp256k1) (Gy secp256k1) = Inr True"
  by (rule IsOnCurve_cert [where ?q1.0 = "0x1461286ABE28C5F1DF2D7D4BCA391B5070F6EC678FE75B56871BF154987E3E12"
        and ?q2.0 = "0x1B888E01A06E974017A28A5B4DA436169761C9730B7AEEDF75FC60F6A33CFC77A75F9CDBDD2B234AEA3E62CAE573983400F338EFEC38B3EB3B780B1E8C9223FB"
        and r = "0x4866D6A5AB41AB2C6BCC57CCD3735DA5F16F80A548E5E20A44E4E9B8118C26F2"];
      simp only: secp256k1_def Curve.select_convs num_arith)

text \<open>
  Claim C7.  For each of the four registered curves secp160k1, secp192k1, secp224k1 and
  secp256k1, \<open>IsOnCurve\<close> applied to the literal base point \<open>(Gx, Gy)\<close> returns true: the
  constants satisfy \<open>Gy\<^sup>2 \<equiv> Gx\<^sup>3 + B (mod P)\<close>.
\<close>

theorem base_points_on_curve:
  "IsOnCurve secp160k1 (Gx secp160k1) (Gy secp160k1) = Inr True \<and>
   IsOnCurve secp192k1 (Gx secp192k1) (Gy secp192k1) = Inr True \<and>
   IsOnCurve secp224k1 (Gx secp224k1) (Gy secp224k1) = Inr True \<and>
   IsOnCurve secp256k1 (Gx secp256k1) (Gy secp256k1) = Inr True"
  by (simp only: secp160k1_base_point secp192k1_base_point secp224k1_base_point
      secp256k1_base_point simp_thms)

section \<open>Doubling\<close>

text \<open>
  Claim C9.  For every curve (with a modulus \<open>P > 0\<close>, as the data model has it) and every
  Jacobian input \<open>(x, y, z)\<close>, \<open>doubleJacobian\<close> computes exactly the formula of the
  specification: \<open>x3 = f - 2d\<close>, \<open>y3 = e(d - x3) - 8c\<close> and \<open>z3 = 2yz\<close>, each reduced modulo
  \<open>P\<close>; in particular \<open>z3\<close> is \<open>2yz\<close> and not \<open>3yz\<close>.
\<close>

theorem doubleJacobian_formula:
  "0 < P c \<Longrightarrow> doubleJacobian c x y z = Inr (double_formula (P c) x y z)"
proof -
  assume pos: "0 < P c"
  have d: "((x + y * y) * (x + y * y) - x * x - y * y * (y * y)) * 2 =
           2 * ((x + y\<^sup>2)\<^sup>2 - x\<^sup>2 - (y\<^sup>2)\<^sup>2)"
    by (simp add: power2_eq_square)
  have f: "3 * (x * x) * (3 * (x * x)) = (3 * x\<^sup>2)\<^sup>2"
    by (simp add: power2_eq_square)
  have z: "2 * (y * z) = 2 * y * z"
    by simp
  show ?thesis
    unfolding doubleJacobian_def double_formula_def big_Mod_def Let_def d f z
    using pos by (simp add: power2_eq_square)
qed

theorem doubleJacobian_formula_witness:
  "0 < P secp256k1 \<and>
   doubleJacobian secp256k1 (Gx secp256k1) (Gy secp256k1) 1 =
     Inr (double_formula (P secp256k1) (Gx secp256k1) (Gy secp256k1) 1)"
  using doubleJacobian_formula [of secp256k1 "Gx secp256k1" "Gy secp256k1" 1]
  by (simp add: secp256k1_def)

section \<open>Scalars without a set bit\<close>

lemma bit_loop_zero:
  "bit_loop c Bx By Bz n 0 (x, y, z, False) = Inr (x, y, z, False)"
proof (induction "8 - n" arbitrary: n)
  case 0
  then show ?case by (simp add: bit_loop.simps)
next
  case (Suc k)
  then have "8 - (n + 1) = k" "n < 8" by simp_all
  with Suc.hyps(1) [of "n + 1"] show ?case
    by (subst bit_loop.simps) (simp add: pbind_def)
qed

lemma byte_loop_zero:
  "\<forall>b\<in>set k. b = 0 \<Longrightarrow> byte_loop c Bx By Bz k (x, y, z, False) = Inr (x, y, z, False)"
  by (induction k) (simp_all add: bit_loop_zero pbind_def)

text \<open>
  Claim C8.  For every curve and base point, when the scalar \<open>k\<close> has no set bit (all its
  bytes are zero, or it is empty), \<open>ScalarMult\<close> returns the absent result \<open>nil, nil\<close>: a
  normal return without coordinates, neither a panic nor an error.
\<close>

theorem ScalarMult_no_set_bit:
  "\<forall>b\<in>set k. b = 0 \<Longrightarrow> ScalarMult c Bx By k = Inr None"
  by (simp add: ScalarMult_def byte_loop_zero pbind_def)

theorem ScalarMult_no_set_bit_witness:
  "ScalarMult secp256k1 (Gx secp256k1) (Gy secp256k1) [0, 0] = Inr None"
  using ScalarMult_no_set_bit [of "[0, 0]" secp256k1 "Gx secp256k1" "Gy secp256k1"]
  by simp

section \<open>Compressed points\<close>

lemma Bytes_1: "big_Bytes 1 = [1]"
  by (simp add: big_Bytes_def Bytes_from.simps)

text \<open>
  Claim C5 says that the encoding of an on-curve point always has \<open>1 + ceil(BitSize/8)\<close>
  bytes.  \<open>CompressPoint\<close> copies \<open>X.Bytes()\<close>, which has no leading zero bytes.  On
  secp192k1 the point \<open>(1, 2)\<close> lies on the curve (\<open>2\<^sup>2 = 1\<^sup>3 + 3\<close>) and its encoding is the
  two bytes \<open>02 01\<close>, not 25 bytes.
\<close>

theorem CompressPoint_short:
  "IsOnCurve secp192k1 1 2 = Inr True \<and>
   CompressPoint secp192k1 1 2 = [2, 1] \<and>
   int (length (CompressPoint secp192k1 1 2)) \<noteq> 1 + (BitSize secp192k1 + 7) div 8"
  by (simp add: IsOnCurve_def CompressPoint_def Bytes_1 secp192k1_def big_Mod_def)

text \<open>
  Claim C1 says that \<open>DecompressPoint\<close> applied to the bytes of \<open>CompressPoint\<close> gives the
  point back.  For the same point \<open>(1, 2)\<close> of secp192k1 the two bytes of \<open>CompressPoint\<close>
  fail the length test of \<open>DecompressPoint\<close>, which returns the error
  "Not a compressed point. (Require 1 + key size)".
\<close>

theorem DecompressPoint_CompressPoint_short:
  "IsOnCurve secp192k1 1 2 = Inr True \<and>
   DecompressPoint U secp192k1 (CompressPoint secp192k1 1 2) = Some (Inr (Inl RequireKeySize))"
  by (simp add: IsOnCurve_def CompressPoint_def Bytes_1 secp192k1_def big_Mod_def
      DecompressPoint_def decompress_from_def drop_bit_eq_div)

text \<open>
  Claim C10.  \<open>DecompressPoint\<close> reads the tag \<open>cp[0]\<close> before it tests the length.  On the
  empty byte sequence that read is out of range: the call panics, and so returns none of
  the three errors of the package.
\<close>

theorem DecompressPoint_empty:
  "DecompressPoint U c [] = Some (Inl IndexOutOfRange) \<and>
   DecompressPoint U c [] \<notin>
     {Some (Inr (Inl InvalidHeader)), Some (Inr (Inl RequireKeySize)), Some (Inr (Inl NotOnCurve))}"
  by (simp add: DecompressPoint_def)

section \<open>Primes: Fermat's little theorem and square roots of one\<close>

lemma prime_int_gt1: "prime_int p \<Longrightarrow> 1 < p"
  by (simp add: prime_int_def)

lemma prime_int_coprime:
  assumes "prime_int p" and "\<not> p dvd a"
  shows "coprime p a"
proof (rule coprimeI)
  fix c assume c: "c dvd p" "c dvd a"
  from assms(1) c(1) have "\<bar>c\<bar> = 1 \<or> \<bar>c\<bar> = p"
    by (simp add: prime_int_def)
  moreover have "\<bar>c\<bar> \<noteq> p"
  proof
    assume "\<bar>c\<bar> = p"
    then have "p dvd c" by (metis abs_dvd_iff dvd_refl)
    with c(2) assms(2) show False by (blast intro: dvd_trans)
  qed
  ultimately show "is_unit c" by simp
qed

lemma prime_int_dvd_mult:
  assumes "prime_int p" and "p dvd a * b"
  shows "p dvd a \<or> p dvd b"
proof (cases "p dvd a")
  case False
  with assms(1) have "coprime p a" by (rule prime_int_coprime)
  with assms(2) show ?thesis
    by (simp add: coprime_dvd_mult_right_iff)
qed simp

lemma prime_int_dvd_power:
  assumes "prime_int p"
  shows "p dvd a ^ n \<Longrightarrow> p dvd a"
proof (induction n)
  case 0
  then have "\<bar>p\<bar> = 1" by simp
  with assms show ?case by (simp add: prime_int_def)
next
  case (Suc n)
  then show ?case using prime_int_dvd_mult [OF assms, of a "a ^ n"] by auto
qed

lemma prime_int_not_dvd_small:
  assumes "prime_int p" and "0 < k" and "k < p"
  shows "\<not> p dvd k"
  using assms by (auto simp: prime_int_def dest: zdvd_imp_le)

lemma prime_dvd_binomial:
  assumes "prime_int (int p)" and "0 < k" and "k < p"
  shows "int p dvd int (p choose k)"
proof -
  have "k * (p choose k) = p * ((p - 1) choose (k - 1))"
    using assms(2) by (rule times_binomial_minus1_eq)
  then have "int k * int (p choose k) = int p * int ((p - 1) choose (k - 1))"
    by (metis of_nat_mult)
  then have "int p dvd int k * int (p choose k)"
    by simp
  moreover have "\<not> int p dvd int k"
    using assms by (intro prime_int_not_dvd_small) simp_all
  ultimately show ?thesis
    using prime_int_dvd_mult [OF assms(1)] by blast
qed

lemma freshman:
  assumes "prime_int (int p)"
  shows "int p dvd (a + 1) ^ p - (a ^ p + 1)"
proof -
  have p1: "1 < p" using assms by (simp add: prime_int_def)
  have "(a + 1) ^ p = (\<Sum>k\<le>p. int (p choose k) * a ^ k * 1 ^ (p - k))"
    by (rule binomial_ring)
  also have "\<dots> = (\<Sum>k\<le>p. int (p choose k) * a ^ k)"
    by simp
  also have "{..p} = insert 0 (insert p {0<..<p})"
    using p1 by auto
  also have "(\<Sum>k\<in>insert 0 (insert p {0<..<p}). int (p choose k) * a ^ k) =
             1 + a ^ p + (\<Sum>k\<in>{0<..<p}. int (p choose k) * a ^ k)"
    using p1 by simp
  finally have "(a + 1) ^ p - (a ^ p + 1) = (\<Sum>k\<in>{0<..<p}. int (p choose k) * a ^ k)"
    by simp
  moreover have "int p dvd (\<Sum>k\<in>{0<..<p}. int (p choose k) * a ^ k)"
    by (rule dvd_sum) (auto intro: dvd_mult2 prime_dvd_binomial [OF assms])
  ultimately show ?thesis by simp
qed

lemma fermat_nonneg:
  assumes "prime_int p" and "0 \<le> a"
  shows "p dvd a ^ nat p - a"
  using assms(2)
proof (induction a rule: int_ge_induct)
  case base
  have "0 < nat p" using assms(1) by (simp add: prime_int_def)
  then show ?case by (simp add: power_0_left)
next
  case (step a)
  have pp: "prime_int (int (nat p))" using assms(1) by (simp add: prime_int_def)
  have "int (nat p) dvd (a + 1) ^ nat p - (a ^ nat p + 1)"
    by (rule freshman [OF pp])
  moreover have "int (nat p) = p" using assms(1) by (simp add: prime_int_def)
  ultimately have "p dvd (a + 1) ^ nat p - (a ^ nat p + 1)" by simp
  with step.IH have "p dvd ((a + 1) ^ nat p - (a ^ nat p + 1)) + (a ^ nat p - a)"
    by (rule_tac dvd_add)
  then show ?case by (simp add: algebra_simps)
qed

lemma fermat_little:
  assumes "prime_int p" and "\<not> p dvd a"
  shows "a ^ nat (p - 1) mod p = 1"
proof -
  define b where "b = a mod p"
  have p1: "1 < p" using assms(1) by (simp add: prime_int_def)
  have b: "0 \<le> b" "\<not> p dvd b" using p1 assms(2) by (simp_all add: b_def dvd_eq_mod_eq_0)
  have "p dvd b ^ nat p - b" by (rule fermat_nonneg [OF assms(1) b(1)])
  moreover have "nat p = Suc (nat (p - 1))" using p1 by simp
  ultimately have "p dvd b * (b ^ nat (p - 1) - 1)"
    by (simp add: algebra_simps)
  with b(2) have "p dvd b ^ nat (p - 1) - 1"
    using prime_int_dvd_mult [OF assms(1)] by blast
  then have "b ^ nat (p - 1) mod p = 1 mod p"
    by (simp add: mod_eq_dvd_iff)
  then show ?thesis using p1 by (simp add: b_def power_mod)
qed

lemma sqrt_one:
  assumes "prime_int p" and "(x * x) mod p = 1"
  shows "x mod p = 1 \<or> x mod p = p - 1"
proof -
  have p1: "1 < p" using assms(1) by (simp add: prime_int_def)
  from assms(2) have "(x * x) mod p = 1 mod p" using p1 by simp
  then have "p dvd x * x - 1" by (simp add: mod_eq_dvd_iff)
  moreover have "x * x - 1 = (x - 1) * (x + 1)" by (simp add: algebra_simps)
  ultimately have "p dvd x - 1 \<or> p dvd x + 1"
    using prime_int_dvd_mult [OF assms(1)] by metis
  then show ?thesis
  proof
    assume "p dvd x - 1"
    then have "x mod p = 1 mod p" by (simp add: mod_eq_dvd_iff)
    then show ?thesis using p1 by simp
  next
    assume "p dvd x + 1"
    then have "p dvd (x + 1) - p" by (rule dvd_diff) simp
    moreover have "x - (p - 1) = (x + 1) - p" by simp
    ultimately have "p dvd x - (p - 1)" by (simp only:)
    then have "x mod p = (p - 1) mod p" by (simp only: mod_eq_dvd_iff)
    moreover have "(p - 1) mod p = p - 1"
      by (rule mod_pos_pos_trivial) (use p1 in simp_all)
    ultimately have "x mod p = p - 1" by (simp only:)
    then show ?thesis by (rule disjI2)
  qed
qed


lemma pdiv_length: "length (pdiv cs a) = length cs - 1"
  by (induction cs a rule: pdiv.induct) simp_all

lemma pdiv_last: "2 \<le> length cs \<Longrightarrow> last (pdiv cs a) = last cs"
proof (induction cs a rule: pdiv.induct)
  case (3 c d cs a)
  show ?case
  proof (cases cs)
    case Nil
    then show ?thesis by simp
  next
    case (Cons e es)
    with 3 have "last (pdiv (d # cs) a) = last (d # cs)" by simp
    moreover have "pdiv (d # cs) a \<noteq> []" using Cons by simp
    ultimately show ?thesis by simp
  qed
qed simp_all

lemma pdiv_eval: "peval cs x = (x - a) * peval (pdiv cs a) x + peval cs a"
proof (induction cs a rule: pdiv.induct)
  case (3 c d cs a)
  have "peval (c # d # cs) x - peval (c # d # cs) a =
        x * peval (d # cs) x - a * peval (d # cs) a"
    by simp
  also have "\<dots> = x * ((x - a) * peval (pdiv (d # cs) a) x + peval (d # cs) a)
                   - a * peval (d # cs) a"
    using 3 by simp
  also have "\<dots> = (x - a) * peval (pdiv (c # d # cs) a) x"
    by (simp add: algebra_simps)
  finally show ?case by simp
qed simp_all

lemma roots_finite: "finite (roots p cs)"
proof -
  have "roots p cs \<subseteq> {0..<p}" by (auto simp: roots_def)
  then show ?thesis by (rule finite_subset) simp
qed

lemma lagrange:
  assumes "prime_int p"
  shows "cs \<noteq> [] \<Longrightarrow> \<not> p dvd last cs \<Longrightarrow> card (roots p cs) \<le> length cs - 1"
proof (induction "length cs" arbitrary: cs)
  case 0
  then show ?case by simp
next
  case (Suc n)
  show ?case
  proof (cases "roots p cs = {}")
    case True
    then show ?thesis by simp
  next
    case False
    then obtain a where a: "0 \<le> a" "a < p" "p dvd peval cs a"
      by (auto simp: roots_def)
    show ?thesis
    proof (cases "n = 0")
      case True
      with Suc.hyps(2) obtain c where "cs = [c]"
        by (cases cs) auto
      with Suc.prems(2) a(3) show ?thesis by simp
    next
      case n: False
      let ?ds = "pdiv cs a"
      have len: "length ?ds = n" using Suc.hyps(2) by (simp add: pdiv_length)
      have ne: "?ds \<noteq> []" using len n by auto
      have lst: "last ?ds = last cs"
        using Suc.hyps(2) n by (intro pdiv_last) simp
      have IH: "card (roots p ?ds) \<le> n - 1"
        using Suc.hyps(1) [of ?ds] len ne lst Suc.prems(2) by simp
      have sub: "roots p cs \<subseteq> insert a (roots p ?ds)"
      proof
        fix x assume "x \<in> roots p cs"
        then have x: "0 \<le> x" "x < p" "p dvd peval cs x" by (auto simp: roots_def)
        have "peval cs x = (x - a) * peval ?ds x + peval cs a" by (rule pdiv_eval)
        with x(3) a(3) have "p dvd (x - a) * peval ?ds x"
          by (metis dvd_add_left_iff)
        then have "p dvd x - a \<or> p dvd peval ?ds x"
          by (rule prime_int_dvd_mult [OF assms])
        then show "x \<in> insert a (roots p ?ds)"
        proof
          assume "p dvd x - a"
          then have "x mod p = a mod p" by (simp only: mod_eq_dvd_iff)
          with x a have "x = a" by simp
          then show ?thesis by simp
        next
          assume "p dvd peval ?ds x"
          with x show ?thesis by (simp add: roots_def)
        qed
      qed
      have "card (roots p cs) \<le> card (insert a (roots p ?ds))"
        by (rule card_mono [OF _ sub]) (simp add: roots_finite)
      also have "\<dots> \<le> Suc (card (roots p ?ds))"
        by (rule card_insert_le_m1) simp_all
      also have "\<dots> \<le> n" using IH n by simp
      finally show ?thesis using Suc.hyps(2) by simp
    qed
  qed
qed

lemma peval_monomial: "peval (replicate n 0 @ [1]) x = x ^ n"
  by (induction n) simp_all

lemma half_power:
  assumes "prime_int p" and "p \<noteq> 2" and "\<not> p dvd a"
  shows "a ^ nat ((p - 1) div 2) mod p = 1 \<or> a ^ nat ((p - 1) div 2) mod p = p - 1"
proof -
  have p1: "1 < p" using assms(1) by (simp add: prime_int_def)
  have odd: "odd p"
  proof
    assume "even p"
    then have "2 dvd p" by simp
    with assms(1) have "\<bar>2::int\<bar> = 1 \<or> \<bar>2::int\<bar> = p" unfolding prime_int_def by blast
    with assms(2) show False by simp
  qed
  then have "2 * ((p - 1) div 2) = p - 1" by (simp add: odd_two_times_div_two_succ)
  then have e: "nat ((p - 1) div 2) + nat ((p - 1) div 2) = nat (p - 1)"
    using p1 by linarith
  let ?h = "a ^ nat ((p - 1) div 2)"
  have "(?h mod p) * (?h mod p) mod p = (?h * ?h) mod p"
    by (simp add: mod_mult_eq)
  also have "?h * ?h = a ^ nat (p - 1)"
    by (simp add: power_add [symmetric] e)
  also have "\<dots> mod p = 1" by (rule fermat_little [OF assms(1,3)])
  finally have "(?h mod p) * (?h mod p) mod p = 1" .
  from sqrt_one [OF assms(1) this] show ?thesis by simp
qed

lemma nonresidue_exists:
  assumes "prime_int p" and "p \<noteq> 2"
  shows "\<exists>n. 2 \<le> n \<and> n < p \<and> n ^ nat ((p - 1) div 2) mod p = p - 1"
proof (rule ccontr)
  assume none: "\<not> ?thesis"
  have p1: "1 < p" using assms(1) by (simp add: prime_int_def)
  have p3: "3 \<le> p" using p1 assms(2) by simp
  define k where "k = nat ((p - 1) div 2)"
  have k1: "1 \<le> k" using p3 by (simp add: k_def)
  have k2: "2 * int k \<le> p - 1" using p3 by (simp add: k_def)
  define cs where "cs = (- 1) # replicate (k - 1) 0 @ [1::int]"
  have ev: "peval cs x = x ^ k - 1" for x
  proof -
    have "peval cs x = - 1 + x * x ^ (k - 1)"
      by (simp add: cs_def peval_monomial)
    also have "x * x ^ (k - 1) = x ^ k"
      using k1 by (metis Suc_pred' less_eq_Suc_le power_Suc One_nat_def)
    finally show ?thesis by simp
  qed
  have all: "x ^ k mod p = 1" if "1 \<le> x" "x < p" for x
  proof (cases "x = 1")
    case True
    then show ?thesis using p1 by simp
  next
    case False
    have "\<not> p dvd x" using that by (intro prime_int_not_dvd_small [OF assms(1)]) simp_all
    from half_power [OF assms this] none that False show ?thesis
      by (auto simp: k_def)
  qed
  have sub: "{1..<p} \<subseteq> roots p cs"
  proof
    fix x assume "x \<in> {1..<p}"
    then have x: "1 \<le> x" "x < p" by simp_all
    from all [OF this] have "x ^ k mod p = 1 mod p" using p1 by simp
    then have "p dvd x ^ k - 1" by (simp only: mod_eq_dvd_iff)
    with x show "x \<in> roots p cs" by (simp add: roots_def ev)
  qed
  have "card {1..<p} \<le> card (roots p cs)"
    by (rule card_mono [OF roots_finite sub])
  moreover have "card (roots p cs) \<le> length cs - 1"
    by (rule lagrange [OF assms(1)]) (use p1 in \<open>simp_all add: cs_def\<close>)
  moreover have "length cs - 1 = k" using k1 by (simp add: cs_def)
  moreover have "card {1..<p} = nat (p - 1)" by simp
  ultimately have "nat (p - 1) \<le> k" by simp
  with k2 k1 show False by linarith
qed

section \<open>The loops of \<open>Sqrt\<close>\<close>

lemma big_Exp_mod:
  "p \<noteq> 0 \<Longrightarrow> 0 \<le> y \<Longrightarrow> big_Exp z x y (Some p) = x ^ nat y mod \<bar>p\<bar>"
  by (simp add: big_Exp_def big_Mod_def)

lemma big_Exp_nil: "big_Exp z x y None = x ^ nat y"
  by (simp add: big_Exp_def)

lemma legendre_symbol_eq:
  assumes "0 < p"
  shows "legendre_symbol a p =
     (if a mod p = 0 then Inr 0
      else if a ^ nat ((p - 1) div 2) mod p = p - 1 then Inr (- 1) else Inr 1)"
proof -
  have "0 \<le> (p - 1) div 2" using assms by simp
  then show ?thesis
    using assms by (simp add: legendre_symbol_def big_Mod_def Let_def big_Exp_mod)
qed

lemma residue_half_power:
  assumes "prime_int p" and "p \<noteq> 2" and "\<not> p dvd a" and "is_residue a p"
  shows "a ^ nat ((p - 1) div 2) mod p = 1"
proof -
  from assms(4) obtain r where r: "(r * r) mod p = a mod p"
    by (auto simp: is_residue_def)
  have p1: "1 < p" using assms(1) by (simp add: prime_int_def)
  have "\<not> p dvd r"
  proof
    assume "p dvd r"
    then have "p dvd r * r" by simp
    then have "(r * r) mod p = 0" by simp
    with r assms(3) show False by (simp add: dvd_eq_mod_eq_0)
  qed
  have odd: "odd p"
  proof
    assume "even p"
    then have "2 dvd p" by simp
    with assms(1) have "\<bar>2::int\<bar> = 1 \<or> \<bar>2::int\<bar> = p" unfolding prime_int_def by blast
    with assms(2) show False by simp
  qed
  then have "2 * ((p - 1) div 2) = p - 1" by (simp add: odd_two_times_div_two_succ)
  then have e: "2 * nat ((p - 1) div 2) = nat (p - 1)"
    using p1 by linarith
  have "a ^ nat ((p - 1) div 2) mod p = (a mod p) ^ nat ((p - 1) div 2) mod p"
    by (simp add: power_mod)
  also have "\<dots> = (r * r) ^ nat ((p - 1) div 2) mod p"
    by (simp add: r [symmetric] power_mod)
  also have "(r * r) ^ nat ((p - 1) div 2) = r ^ nat (p - 1)"
    by (simp add: power2_eq_square [symmetric] power_mult [symmetric] e)
  also have "\<dots> mod p = 1"
    by (rule fermat_little [OF assms(1) \<open>\<not> p dvd r\<close>])
  finally show ?thesis .
qed

lemma split_twos_correct:
  "0 < s0 \<Longrightarrow>
   \<exists>s e. split_twos s0 e0 = Some (s, e) \<and> odd s \<and> 0 < s \<and> e0 \<le> e \<and> s0 = s * 2 ^ nat (e - e0)"
proof (induction "nat s0" arbitrary: s0 e0 rule: less_induct)
  case less
  show ?case
  proof (cases "s0 mod 2 = 0")
    case False
    then have "split_twos s0 e0 = Some (s0, e0)"
      by (subst split_twos.simps) simp
    moreover have "odd s0" using False by presburger
    ultimately show ?thesis using less.prems by simp
  next
    case True
    then have twice: "s0 = 2 * (s0 div 2)" by auto
    have pos: "0 < s0 div 2" using twice less.prems by linarith
    have lt: "nat (s0 div 2) < nat s0" using twice pos by linarith
    from less.hyps [OF lt pos, of "e0 + 1"] obtain s e where
      se: "split_twos (s0 div 2) (e0 + 1) = Some (s, e)" "odd s" "0 < s" "e0 + 1 \<le> e"
          "s0 div 2 = s * 2 ^ nat (e - (e0 + 1))"
      by blast
    have "split_twos s0 e0 = Some (s, e)"
      using True se(1) by (subst split_twos.simps) simp
    moreover have "nat (e - e0) = Suc (nat (e - (e0 + 1)))" using se(4) by simp
    then have "s0 = s * 2 ^ nat (e - e0)"
      using twice se(5) by simp
    ultimately show ?thesis using se(2,3,4) by auto
  qed
qed

lemma find_n_correct:
  "legendre_symbol n0 p = Inr (- 1) \<Longrightarrow> n \<le> n0 \<Longrightarrow>
   \<exists>n'. find_n n p = Some n' \<and> legendre_symbol n' p = Inr (- 1)"
proof (induction "nat (n0 - n)" arbitrary: n rule: less_induct)
  case less
  show ?case
  proof (cases "legendre_symbol n p = Inr (- 1)")
    case True
    then have "find_n n p = Some n" by (subst find_n.simps) simp
    with True show ?thesis by simp
  next
    case False
    with less.prems have "n \<noteq> n0" by auto
    with less.prems have lt: "nat (n0 - (n + 1)) < nat (n0 - n)" "n + 1 \<le> n0" by simp_all
    from less.hyps [OF lt(1) less.prems(1) lt(2)] obtain n' where
      "find_n (n + 1) p = Some n'" "legendre_symbol n' p = Inr (- 1)" by blast
    moreover have "find_n n p = find_n (n + 1) p"
      using False by (subst find_n.simps) simp
    ultimately show ?thesis by simp
  qed
qed

lemma find_m_correct:
  "1 < p \<Longrightarrow> 0 \<le> m \<Longrightarrow> t = b ^ (2 ^ nat m) mod p \<Longrightarrow> find_m p r t m = (t', m') \<Longrightarrow>
     m \<le> m' \<and> (m \<le> r \<longrightarrow> m' \<le> r) \<and> (m' < r \<longrightarrow> b ^ (2 ^ nat m') mod p = 1) \<and>
     (\<forall>j. m \<le> j \<and> j < m' \<longrightarrow> b ^ (2 ^ nat j) mod p \<noteq> 1)"
proof (induction p r t m rule: find_m.induct)
  case (1 p r t m)
  note p1 = "1.prems"(1) and m0 = "1.prems"(2) and t = "1.prems"(3) and res = "1.prems"(4)
  show ?case
  proof (cases "m < r \<and> t \<noteq> 1")
    case False
    then have "find_m p r t m = (t, m)"
      by (subst find_m.simps) auto
    with res have "m' = m" "t' = t" by simp_all
    with False m0 t show ?thesis by auto
  next
    case True
    let ?t = "big_Exp t t 2 (Some p)"
    have p0: "p \<noteq> 0" "\<bar>p\<bar> = p" using p1 by simp_all
    have "?t = t ^ 2 mod p" using p0 by (simp add: big_Exp_mod)
    also have "\<dots> = (b ^ (2 ^ nat m)) ^ 2 mod p"
      using t by (simp add: power_mod)
    also have "(b ^ (2 ^ nat m)) ^ 2 = b ^ (2 ^ nat (m + 1))"
      using m0 by (simp add: power_mult [symmetric] nat_add_distrib mult.commute)
    finally have t2: "?t = b ^ (2 ^ nat (m + 1)) mod p" .
    have "find_m p r t m = find_m p r ?t (m + 1)"
      using True by (subst find_m.simps) simp
    with res have rec: "find_m p r ?t (m + 1) = (t', m')" by simp
    have IH: "m + 1 \<le> m' \<and> (m + 1 \<le> r \<longrightarrow> m' \<le> r) \<and>
        (m' < r \<longrightarrow> b ^ (2 ^ nat m') mod p = 1) \<and>
        (\<forall>j. m + 1 \<le> j \<and> j < m' \<longrightarrow> b ^ (2 ^ nat j) mod p \<noteq> 1)"
      using "1.IH" [OF _ _ p1 _ t2 rec] True m0 by simp
    have "b ^ (2 ^ nat j) mod p \<noteq> 1" if "m \<le> j" "j < m'" for j
    proof (cases "j = m")
      case True
      with \<open>m < r \<and> t \<noteq> 1\<close> t show ?thesis by simp
    next
      case False
      with that IH show ?thesis by simp
    qed
    with IH True show ?thesis by auto
  qed
qed

lemma neg_one_sq: "((p - 1) * (p - 1)) mod p = 1 mod (p::int)"
proof -
  have "(p - 1) * (p - 1) = 1 + p * (p - 2)" by (simp add: algebra_simps)
  then show ?thesis by (simp only: mod_mult_self2)
qed

lemma shanks_loop_correct:
  assumes pr: "prime_int p"
  shows "1 \<le> r \<Longrightarrow> 0 \<le> b \<Longrightarrow> b < p \<Longrightarrow> 0 \<le> x \<Longrightarrow> x < p \<Longrightarrow>
     (x * x) mod p = (a * b) mod p \<Longrightarrow>
     g ^ (2 ^ nat (r - 1)) mod p = p - 1 \<Longrightarrow>
     b ^ (2 ^ nat (r - 1)) mod p = 1 \<Longrightarrow>
     \<exists>x'. shanks_loop p x b g r = Some x' \<and> 0 \<le> x' \<and> x' < p \<and> (x' * x') mod p = a mod p"
proof (induction "nat r" arbitrary: r x b g rule: less_induct)
  case less
  have p1: "1 < p" using pr by (simp add: prime_int_def)
  have p0: "p \<noteq> 0" "\<bar>p\<bar> = p" using p1 by simp_all
  obtain t' m' where fm: "find_m p r b 0 = (t', m')"
    by (cases "find_m p r b 0")
  have b0: "b = b ^ (2 ^ nat 0) mod p" using less.prems(2,3) by simp
  from find_m_correct [OF p1 _ b0 fm] less.prems(1)
  have M: "0 \<le> m'" "m' \<le> r" "m' < r \<longrightarrow> b ^ (2 ^ nat m') mod p = 1"
    "\<forall>j. 0 \<le> j \<and> j < m' \<longrightarrow> b ^ (2 ^ nat j) mod p \<noteq> 1"
    by simp_all
  have mr: "m' < r"
  proof (rule ccontr)
    assume "\<not> m' < r"
    with M(2) have "m' = r" by simp
    with M(4) less.prems(1) have "b ^ (2 ^ nat (r - 1)) mod p \<noteq> 1" by simp
    with less.prems(8) show False by simp
  qed
  with M(3) have bm: "b ^ (2 ^ nat m') mod p = 1" by simp
  show ?case
  proof (cases "m' = 0")
    case True
    have "shanks_loop p x b g r = Some x"
      by (subst shanks_loop.simps) (simp add: fm True)
    moreover from bm True less.prems(2,3) have "b = 1" by simp
    ultimately show ?thesis using less.prems(4,5,6) by simp
  next
    case False
    with M(1) have m1: "1 \<le> m'" by simp
    define R where "R = nat r"
    define M where "M = nat m'"
    have RM: "1 \<le> M" "M < R" using m1 mr by (simp_all add: R_def M_def)
    define k where "k = R - M - 1"
    have nats: "nat (r - m' - 1) = k" "nat (m' - 1) = M - 1" "nat (r - 1) = R - 1"
      using m1 mr by (simp_all add: R_def M_def k_def nat_diff_distrib)
    have k2: "2 * 2 ^ k = (2::nat) ^ (R - M)"
    proof -
      have "R - M = Suc k" using RM by (simp add: k_def)
      then show ?thesis by simp
    qed
    define gs where "gs = g ^ (2 ^ k) mod p"
    define g' where "g' = (gs * gs) mod p"
    define x' where "x' = (x * gs) mod p"
    define b' where "b' = (b * g') mod p"
    have ge: "0 \<le> r - m' - 1" using mr by simp
    have e2: "big_Exp (r - m' - 1) 2 (r - m' - 1) None = 2 ^ k"
      by (simp add: big_Exp_nil nats)
    have e3: "big_Exp (2 ^ k) g (2 ^ k) (Some p) = gs"
      using p0 by (simp add: big_Exp_mod gs_def nat_power_eq)
    have unfold: "shanks_loop p x b g r = shanks_loop p x' b' g' m'"
      by (subst shanks_loop.simps)
         (simp add: fm False Let_def e2 e3 big_Mod_def p0 g'_def x'_def b'_def)
    have gsq: "g' = g ^ (2 ^ (R - M)) mod p"
    proof -
      have "g' = (g ^ (2 ^ k) * g ^ (2 ^ k)) mod p"
        by (simp add: g'_def gs_def mod_mult_eq)
      also have "g ^ (2 ^ k) * g ^ (2 ^ k) = g ^ (2 * 2 ^ k)"
        by (simp add: power_add [symmetric] mult_2)
      finally show ?thesis by (simp only: k2)
    qed
    have g'pow: "g' ^ (2 ^ (M - 1)) mod p = p - 1"
    proof -
      have "g' ^ (2 ^ (M - 1)) mod p = (g ^ (2 ^ (R - M))) ^ (2 ^ (M - 1)) mod p"
        by (simp add: gsq power_mod)
      also have "(g ^ (2 ^ (R - M))) ^ (2 ^ (M - 1)) = g ^ (2 ^ (R - M) * 2 ^ (M - 1))"
        by (simp add: power_mult)
      also have "2 ^ (R - M) * 2 ^ (M - 1) = (2::nat) ^ (R - 1)"
        using RM by (simp add: power_add [symmetric])
      also have "g ^ (2 ^ (R - 1)) mod p = p - 1"
        using less.prems(7) by (simp add: nats)
      finally show ?thesis .
    qed
    have bpow: "b ^ (2 ^ (M - 1)) mod p = p - 1"
    proof -
      let ?u = "b ^ (2 ^ (M - 1))"
      have "(?u mod p) * (?u mod p) mod p = (?u * ?u) mod p"
        by (simp add: mod_mult_eq)
      also have "?u * ?u = b ^ (2 * 2 ^ (M - 1))"
        by (simp add: power_add [symmetric] mult_2)
      also have "2 * 2 ^ (M - 1) = (2::nat) ^ M"
        using RM by (metis Suc_pred' less_eq_Suc_le power_Suc One_nat_def)
      also have "b ^ (2 ^ M) mod p = 1" using bm by (simp add: M_def)
      finally have "(?u mod p) * (?u mod p) mod p = 1" .
      from sqrt_one [OF pr this] have "?u mod p = 1 \<or> ?u mod p = p - 1" by simp
      moreover have "?u mod p \<noteq> 1"
        using M(4) m1 nats(2) by (metis diff_ge_0_iff_ge zle_diff1_eq zless_add1_eq less_irrefl linorder_not_less add.commute diff_add_cancel)
      ultimately show ?thesis by simp
    qed
    have b'pow: "b' ^ (2 ^ (M - 1)) mod p = 1"
    proof -
      have "b' ^ (2 ^ (M - 1)) mod p = (b * g') ^ (2 ^ (M - 1)) mod p"
        by (simp add: b'_def power_mod)
      also have "\<dots> = (b ^ (2 ^ (M - 1)) mod p) * (g' ^ (2 ^ (M - 1)) mod p) mod p"
        by (simp add: power_mult_distrib mod_mult_eq)
      also have "\<dots> = ((p - 1) * (p - 1)) mod p"
        by (simp only: bpow g'pow)
      also have "\<dots> = 1" using neg_one_sq [of p] p1 by simp
      finally show ?thesis .
    qed
    have xx: "(x' * x') mod p = (a * b') mod p"
    proof -
      have "(x' * x') mod p = ((x * x) * (gs * gs)) mod p"
        by (simp add: x'_def mod_mult_eq mult.assoc mult.left_commute)
      also have "\<dots> = ((x * x) mod p * g') mod p"
        by (simp add: g'_def mod_mult_eq)
      also have "\<dots> = ((a * b) mod p * g') mod p"
        by (simp only: less.prems(6))
      also have "\<dots> = (a * (b * g')) mod p"
        by (simp add: mod_mult_left_eq mult.assoc)
      also have "\<dots> = (a * b') mod p"
        by (simp add: b'_def mod_mult_right_eq)
      finally show ?thesis .
    qed
    have rng: "0 \<le> b'" "b' < p" "0 \<le> x'" "x' < p"
      using p1 by (simp_all add: b'_def x'_def)
    have lt: "nat m' < nat r" using m1 mr by simp
    from less.hyps [OF lt m1 rng xx] g'pow b'pow nats(2)
    obtain y where "shanks_loop p x' b' g' m' = Some y" "0 \<le> y" "y < p" "(y * y) mod p = a mod p"
      by auto
    with unfold show ?thesis by simp
  qed
qed

section \<open>\<open>Sqrt\<close> on a prime modulus\<close>

lemma prime_int_odd:
  assumes "prime_int p" and "p \<noteq> 2"
  shows "odd p"
proof
  assume "even p"
  then have "2 dvd p" by simp
  with assms(1) have "\<bar>2::int\<bar> = 1 \<or> \<bar>2::int\<bar> = p" unfolding prime_int_def by blast
  with assms(2) show False by simp
qed

lemma mod4_exponents:
  assumes "p mod 4 = 3" and "1 < (p::int)"
  shows "2 * nat ((p + 1) div 4) = Suc (nat ((p - 1) div 2))" and "0 < nat ((p + 1) div 4)"
proof -
  define q where "q = p div 4"
  have "p = 4 * (p div 4) + p mod 4" by simp
  then have p: "p = 4 * q + 3" by (simp only: assms(1) q_def)
  have q0: "0 \<le> q" using assms(2) by (simp add: q_def)
  have a: "(p + 1) div 4 = q + 1" by (simp add: p)
  have b: "(p - 1) div 2 = 2 * q + 1" by (simp add: p)
  show "2 * nat ((p + 1) div 4) = Suc (nat ((p - 1) div 2))"
    using q0 unfolding a b by linarith
  show "0 < nat ((p + 1) div 4)"
    using q0 unfolding a by linarith
qed

lemma Sqrt_fast_path:
  assumes pr: "prime_int p" and p4: "p mod 4 = 3" and a: "0 < a" "a < p"
    and h: "a ^ nat ((p - 1) div 2) mod p = 1"
  shows "(a ^ nat ((p + 1) div 4) mod p) * (a ^ nat ((p + 1) div 4) mod p) mod p = a"
proof -
  have p1: "1 < p" using pr by (simp add: prime_int_def)
  have e: "2 * nat ((p + 1) div 4) = Suc (nat ((p - 1) div 2))"
    using p4 p1 by (rule mod4_exponents)
  let ?c = "a ^ nat ((p + 1) div 4)"
  have "(?c mod p) * (?c mod p) mod p = (?c * ?c) mod p"
    by (simp add: mod_mult_eq)
  also have "?c * ?c = a ^ (2 * nat ((p + 1) div 4))"
    by (simp add: power_add [symmetric] mult_2)
  also have "\<dots> = a * a ^ nat ((p - 1) div 2)"
    by (simp only: e power_Suc)
  also have "\<dots> mod p = (a mod p) * (a ^ nat ((p - 1) div 2) mod p) mod p"
    by (simp add: mod_mult_eq)
  also have "\<dots> = a" using h a by simp
  finally show ?thesis .
qed

lemma Sqrt_root:
  assumes pr: "prime_int (P c)" and p2: "P c \<noteq> 2" and a: "0 < a" "a < P c"
    and h: "a ^ nat ((P c - 1) div 2) mod P c = 1"
  shows "\<exists>r. Sqrt c a = Some (Inr r) \<and> 0 \<le> r \<and> r < P c \<and> (r * r) mod P c = a \<and>
     (P c mod 4 = 3 \<longrightarrow> r = a ^ nat ((P c + 1) div 4) mod P c)"
proof -
  define p where "p = P c"
  note pr = pr [folded p_def] and p2 = p2 [folded p_def] and a = a [folded p_def]
    and h = h [folded p_def]
  have p1: "1 < p" using pr by (simp add: prime_int_def)
  have p0: "p \<noteq> 0" "\<bar>p\<bar> = p" "0 < p" using p1 by simp_all
  have amod: "a mod p = a" using a by simp
  have leg: "legendre_symbol a p = Inr 1"
    using a h p1 p2 by (simp add: legendre_symbol_eq [OF p0(3)] amod)
  show ?thesis
  proof (cases "p mod 4 = 3")
    case True
    have "0 \<le> (p + 1) div 4" using p1 by simp
    then have "Sqrt c a = Some (Inr (a ^ nat ((p + 1) div 4) mod p))"
      using leg a p2 True p0
      by (simp add: Sqrt_def p_def [symmetric] Let_def big_Exp_mod)
    moreover have "0 \<le> a ^ nat ((p + 1) div 4) mod p" "a ^ nat ((p + 1) div 4) mod p < p"
      using p1 by simp_all
    moreover note Sqrt_fast_path [OF pr True a h]
    ultimately show ?thesis unfolding p_def [symmetric] by blast
  next
    case False
    have oddp: "odd p" by (rule prime_int_odd [OF pr p2])
    from split_twos_correct [of "p - 1" 0] p1 obtain s e where
      se: "split_twos (p - 1) 0 = Some (s, e)" "odd s" "0 < s" "0 \<le> e" "p - 1 = s * 2 ^ nat e"
      by auto
    have e1: "1 \<le> e"
    proof (rule ccontr)
      assume "\<not> 1 \<le> e"
      with se(4) have "e = 0" by simp
      with se(5) have "p - 1 = s" by simp
      moreover from oddp have "even (p - 1)" by simp
      ultimately show False using se(2) by simp
    qed
    define E where "E = nat (e - 1)"
    have E: "nat e = Suc E" using e1 by (simp add: E_def)
    have half: "nat ((p - 1) div 2) = nat s * 2 ^ E"
    proof -
      have "p - 1 = 2 * (s * 2 ^ E)" using se(5) E by simp
      then have "(p - 1) div 2 = s * 2 ^ E" by simp
      then show ?thesis using se(3) by (simp add: nat_mult_distrib nat_power_eq)
    qed
    from nonresidue_exists [OF pr p2] obtain n0 where
      n0: "2 \<le> n0" "n0 < p" "n0 ^ nat ((p - 1) div 2) mod p = p - 1"
      by blast
    then have "legendre_symbol n0 p = Inr (- 1)"
      using p1 by (simp add: legendre_symbol_eq [OF p0(3)])
    from find_n_correct [OF this n0(1)] obtain n where
      n: "find_n 2 p = Some n" "legendre_symbol n p = Inr (- 1)"
      by blast
    from n(2) have nh: "n ^ nat ((p - 1) div 2) mod p = p - 1"
      by (simp add: legendre_symbol_eq [OF p0(3)] split: if_splits)
    define x where "x = a ^ nat ((s + 1) div 2) mod p"
    define b where "b = a ^ nat s mod p"
    define g where "g = n ^ nat s mod p"
    have sx: "2 * nat ((s + 1) div 2) = Suc (nat s)"
    proof -
      from se(2) obtain q where q: "s = 2 * q + 1" by (auto elim: oddE)
      with se(3) have "0 \<le> q" by simp
      moreover have "(s + 1) div 2 = q + 1" by (simp add: q)
      ultimately show ?thesis unfolding q by simp
    qed
    have xx: "(x * x) mod p = (a * b) mod p"
    proof -
      have "(x * x) mod p = (a ^ nat ((s + 1) div 2) * a ^ nat ((s + 1) div 2)) mod p"
        by (simp add: x_def mod_mult_eq)
      also have "a ^ nat ((s + 1) div 2) * a ^ nat ((s + 1) div 2) = a ^ (2 * nat ((s + 1) div 2))"
        by (simp add: power_add [symmetric] mult_2)
      also have "\<dots> = a * a ^ nat s" by (simp only: sx power_Suc)
      also have "\<dots> mod p = (a * b) mod p" by (simp add: b_def mod_mult_right_eq)
      finally show ?thesis .
    qed
    have gpow: "g ^ (2 ^ nat (e - 1)) mod p = p - 1"
    proof -
      have "g ^ (2 ^ E) mod p = (n ^ nat s) ^ (2 ^ E) mod p"
        by (simp add: g_def power_mod)
      also have "(n ^ nat s) ^ (2 ^ E) = n ^ nat ((p - 1) div 2)"
        by (simp add: power_mult [symmetric] half)
      finally show ?thesis using nh by (simp add: E_def)
    qed
    have bpow: "b ^ (2 ^ nat (e - 1)) mod p = 1"
    proof -
      have "b ^ (2 ^ E) mod p = (a ^ nat s) ^ (2 ^ E) mod p"
        by (simp add: b_def power_mod)
      also have "(a ^ nat s) ^ (2 ^ E) = a ^ nat ((p - 1) div 2)"
        by (simp add: power_mult [symmetric] half)
      finally show ?thesis using h by (simp add: E_def)
    qed
    have rng: "0 \<le> b" "b < p" "0 \<le> x" "x < p"
      using p1 by (simp_all add: b_def x_def)
    from shanks_loop_correct [OF pr e1 rng xx gpow bpow] obtain r where
      r: "shanks_loop p x b g e = Some r" "0 \<le> r" "r < p" "(r * r) mod p = a mod p"
      by blast
    have ex: "big_Exp ((s + 1) div 2) a ((s + 1) div 2) (Some p) = x"
      "big_Exp 0 a s (Some p) = b" "big_Exp 0 n s (Some p) = g"
      using p0 se(3) by (simp_all add: big_Exp_mod x_def b_def g_def)
    have "Sqrt c a = Some (Inr r)"
      using leg a p2 False se(1) n(1) r(1)
      by (simp add: Sqrt_def p_def [symmetric] Let_def ex)
    with r False amod show ?thesis unfolding p_def [symmetric] by simp
  qed
qed

text \<open>
  Claim C4.  For every curve whose modulus \<open>P\<close> is an odd prime (as for each registered
  curve) and every \<open>a\<close> in \<open>[0, P)\<close>: when \<open>a\<close> is a quadratic residue or 0, \<open>Sqrt a\<close> returns some
  \<open>r\<close> with \<open>r\<^sup>2 \<equiv> a (mod P)\<close>; when \<open>a\<close> is not a residue, \<open>Sqrt a\<close> returns 0; and when
  \<open>P \<equiv> 3 (mod 4)\<close> and \<open>a\<close> is a residue, the value returned is exactly \<open>a^((P+1)/4) mod P\<close>.
  In each case the call returns: no loop of the general path runs forever.
\<close>

theorem Sqrt_correct:
  assumes "prime_int (P c)" and "P c \<noteq> 2" and "0 \<le> a" and "a < P c"
  shows "(is_residue a (P c) \<longrightarrow>
            (\<exists>r. Sqrt c a = Some (Inr r) \<and> 0 \<le> r \<and> r < P c \<and> (r * r) mod P c = a)) \<and>
         (\<not> is_residue a (P c) \<longrightarrow> Sqrt c a = Some (Inr 0)) \<and>
         (P c mod 4 = 3 \<and> is_residue a (P c) \<longrightarrow>
            Sqrt c a = Some (Inr (a ^ nat ((P c + 1) div 4) mod P c)))"
proof -
  have p1: "1 < P c" using assms(1) by (simp add: prime_int_def)
  have p0: "0 < P c" using p1 by simp
  have amod: "a mod P c = a" using assms(3,4) by simp
  show ?thesis
  proof (cases "a = 0")
    case True
    have "legendre_symbol 0 (P c) = Inr 0"
      by (simp add: legendre_symbol_eq [OF p0])
    then have s0: "Sqrt c 0 = Some (Inr 0)" by (simp add: Sqrt_def)
    have "0 < nat ((P c + 1) div 4)" if "P c mod 4 = 3"
      using that p1 by (rule mod4_exponents)
    then have "P c mod 4 = 3 \<longrightarrow> (0::int) ^ nat ((P c + 1) div 4) mod P c = 0"
      by (auto simp: power_0_left)
    with s0 True p1 show ?thesis by simp
  next
    case False
    with assms(3) have apos: "0 < a" by simp
    have nd: "\<not> P c dvd a"
      using apos assms(4) by (intro prime_int_not_dvd_small [OF assms(1)])
    from half_power [OF assms(1,2) nd] show ?thesis
    proof
      assume h: "a ^ nat ((P c - 1) div 2) mod P c = 1"
      from Sqrt_root [OF assms(1,2) apos assms(4) h] obtain r where
        r: "Sqrt c a = Some (Inr r)" "0 \<le> r" "r < P c" "(r * r) mod P c = a"
           "P c mod 4 = 3 \<longrightarrow> r = a ^ nat ((P c + 1) div 4) mod P c"
        by blast
      from r(4) have "is_residue a (P c)"
        unfolding is_residue_def amod by blast
      with r show ?thesis by auto
    next
      assume h: "a ^ nat ((P c - 1) div 2) mod P c = P c - 1"
      have "\<not> is_residue a (P c)"
      proof
        assume "is_residue a (P c)"
        from residue_half_power [OF assms(1,2) nd this] h assms(2) show False by simp
      qed
      moreover have "legendre_symbol a (P c) = Inr (- 1)"
        using h False by (simp add: legendre_symbol_eq [OF p0] amod)
      then have "Sqrt c a = Some (Inr 0)" by (simp add: Sqrt_def)
      ultimately show ?thesis by simp
    qed
  qed
qed

lemma prime_int_5: "prime_int 5"
proof -
  have "\<bar>d\<bar> = 1 \<or> \<bar>d\<bar> = 5" if "d dvd 5" for d :: int
  proof -
    define e where "e = \<bar>d\<bar>"
    have a: "e dvd 5" using that by (simp add: e_def)
    then have "e \<le> 5" by (rule zdvd_imp_le) simp
    moreover have "0 \<le> e" by (simp add: e_def)
    ultimately have "e = 0 \<or> e = 1 \<or> e = 2 \<or> e = 3 \<or> e = 4 \<or> e = 5"
      by arith
    with a show ?thesis unfolding e_def [symmetric] by auto
  qed
  then show ?thesis by (simp add: prime_int_def)
qed

lemma prime_int_7: "prime_int 7"
proof -
  have "\<bar>d\<bar> = 1 \<or> \<bar>d\<bar> = 7" if "d dvd 7" for d :: int
  proof -
    define e where "e = \<bar>d\<bar>"
    have a: "e dvd 7" using that by (simp add: e_def)
    then have "e \<le> 7" by (rule zdvd_imp_le) simp
    moreover have "0 \<le> e" by (simp add: e_def)
    ultimately have "e = 0 \<or> e = 1 \<or> e = 2 \<or> e = 3 \<or> e = 4 \<or> e = 5 \<or> e = 6 \<or> e = 7"
      by arith
    with a show ?thesis unfolding e_def [symmetric] by auto
  qed
  then show ?thesis by (simp add: prime_int_def)
qed

lemma not_residue_3_7: "\<not> is_residue 3 7"
proof
  assume "is_residue 3 7"
  then obtain r :: int where r: "(r * r) mod 7 = 3" by (auto simp: is_residue_def)
  define u where "u = r mod 7"
  have "(u * u) mod 7 = 3" using r by (simp add: u_def mod_mult_eq)
  moreover have "0 \<le> u" "u < 7" by (simp_all add: u_def)
  then have "u = 0 \<or> u = 1 \<or> u = 2 \<or> u = 3 \<or> u = 4 \<or> u = 5 \<or> u = 6" by arith
  ultimately show False by auto
qed

lemma residue_2_7: "is_residue 2 7"
proof -
  have "((3::int) * 3) mod 7 = 2 mod 7" by simp
  then show ?thesis unfolding is_residue_def by blast
qed

lemma residue_4_5: "is_residue 4 5"
proof -
  have "((2::int) * 2) mod 5 = 4 mod 5" by simp
  then show ?thesis unfolding is_residue_def by blast
qed

theorem Sqrt_correct_witness:
  "Sqrt (secp256k1\<lparr>P := 7\<rparr>) 2 = Some (Inr 4) \<and>
   Sqrt (secp256k1\<lparr>P := 7\<rparr>) 3 = Some (Inr 0) \<and>
   (\<exists>r. Sqrt (secp256k1\<lparr>P := 5\<rparr>) 4 = Some (Inr r) \<and> (r * r) mod 5 = 4)"
proof -
  have "Sqrt (secp256k1\<lparr>P := 7\<rparr>) 2 = Some (Inr 4)"
    using Sqrt_correct [of "secp256k1\<lparr>P := 7\<rparr>" 2] prime_int_7 residue_2_7 by simp
  moreover have "Sqrt (secp256k1\<lparr>P := 7\<rparr>) 3 = Some (Inr 0)"
    using Sqrt_correct [of "secp256k1\<lparr>P := 7\<rparr>" 3] prime_int_7 not_residue_3_7 by simp
  moreover have "\<exists>r. Sqrt (secp256k1\<lparr>P := 5\<rparr>) 4 = Some (Inr r) \<and> (r * r) mod 5 = 4"
    using Sqrt_correct [of "secp256k1\<lparr>P := 5\<rparr>" 4] prime_int_5 residue_4_5 by auto
  ultimately show ?thesis by simp
qed

section \<open>Adding a point to itself\<close>

lemma coprime_cert:
  assumes eq: "a * u = 1 + b * v"
  shows "coprime a (b::int)"
proof (rule coprimeI)
  fix c assume ca: "c dvd a" and cb: "c dvd b"
  from ca have "c dvd a * u" by simp
  moreover from cb have "c dvd b * v" by simp
  ultimately have "c dvd a * u - b * v" by (rule dvd_diff)
  moreover have "a * u - b * v = 1" using eq by simp
  ultimately show "is_unit c" by (simp only:)
qed

lemma big_ModInverse_Some:
  assumes p: "1 < p" and z: "0 \<le> z" and zr: "(z * r) mod p = 1" and r: "0 \<le> r" "r < p"
  shows "big_ModInverse z p = Some r"
proof -
  have "z * r = 1 + p * ((z * r) div p)"
    using zr by (metis mult_div_mod_eq add.commute)
  then have cop: "coprime z p" by (rule coprime_cert)
  then have g: "gcd z p = 1" by simp
  define u where "u = fst (bezw (nat z) (nat p))"
  define v where "v = snd (bezw (nat z) (nat p))"
  have "int (gcd (nat z) (nat p)) = u * int (nat z) + v * int (nat p)"
    unfolding u_def v_def by (rule bezw_aux)
  moreover have "int (gcd (nat z) (nat p)) = gcd z p"
    using z p by (simp add: gcd_int_def)
  ultimately have bez: "u * z + v * p = 1" using z p g by simp
  have "z * (u - r) mod p = (z * u - z * r) mod p" by (simp add: algebra_simps)
  also have "\<dots> = ((z * u) mod p - (z * r) mod p) mod p" by (simp add: mod_diff_eq)
  also have "(z * u) mod p = 1 mod p"
  proof -
    have "z * u = 1 + p * (- v)" using bez by (simp add: algebra_simps)
    then show ?thesis by (simp only: mod_mult_self2)
  qed
  finally have "z * (u - r) mod p = 0" using zr p by simp
  then have "p dvd z * (u - r)" by (simp add: dvd_eq_mod_eq_0)
  moreover have "coprime p z" using cop by (simp add: coprime_commute)
  ultimately have "p dvd u - r" by (simp add: coprime_dvd_mult_right_iff)
  then have "u mod p = r mod p" by (simp only: mod_eq_dvd_iff)
  then have "u mod p = r" using r by simp
  then show ?thesis
    using z p g by (simp add: big_ModInverse_def Let_def u_def)
qed

lemma big_ModInverse_coprime:
  assumes "1 < p" and "0 \<le> z" and "coprime z p"
  shows "\<exists>r. big_ModInverse z p = Some r"
  using assms by (simp add: big_ModInverse_def Let_def)

lemma big_ModInverse_zero: "1 < p \<Longrightarrow> big_ModInverse 0 p = None"
  by (simp add: big_ModInverse_def)

lemma addJacobian_equal: "1 < P c \<Longrightarrow> addJacobian c x y 1 x y 1 = Inr (0, 0, 0)"
  unfolding addJacobian_def Let_def by (simp add: big_Mod_def)

lemma Add_equal: "1 < P c \<Longrightarrow> Add c x y x y = Inl NilDereference"
  by (simp add: Add_def addJacobian_equal pbind_def affineFromJacobian_def big_ModInverse_zero)

lemma Double_defined:
  assumes "1 < P c" and "coprime (2 * y) (P c)"
  shows "\<exists>X Y. Double c x y = Inr (X, Y)"
proof -
  define z3 where "z3 = (2 * y) mod P c"
  have "gcd z3 (P c) = gcd (2 * y) (P c)"
    unfolding z3_def by (metis gcd_red_int gcd.commute)
  then have "coprime z3 (P c)" using assms(2) by (simp add: coprime_iff_gcd_eq_1)
  moreover have "0 \<le> z3" using assms(1) by (simp add: z3_def)
  ultimately obtain r where "big_ModInverse z3 (P c) = Some r"
    using big_ModInverse_coprime [OF assms(1)] by blast
  then show ?thesis
    using assms(1)
    unfolding Double_def doubleJacobian_def affineFromJacobian_def Let_def z3_def
    by (simp add: big_Mod_def pbind_def)
qed

text \<open>
  Claim C3 says that \<open>Add(x, y, x, y)\<close> and \<open>Double(x, y)\<close> give the same affine result.
  As amended: on every curve with \<open>P > 1\<close> (so on every registered curve) and for every
  point, \<open>addJacobian\<close> of a point with itself is \<open>(0, 0, 0)\<close>, so \<open>Add(x, y, x, y)\<close> returns no
  coordinates: \<open>affineFromJacobian\<close> finds no inverse of \<open>z = 0\<close>.  \<open>Double(x, y)\<close> returns
  coordinates whenever \<open>2y\<close> is invertible modulo \<open>P\<close>.
\<close>

theorem Add_equal_points:
  assumes "1 < P c"
  shows "addJacobian c x y 1 x y 1 = Inr (0, 0, 0) \<and>
         Add c x y x y = Inl NilDereference \<and>
         (coprime (2 * y) (P c) \<longrightarrow> (\<exists>X Y. Double c x y = Inr (X, Y)))"
  using assms by (simp add: addJacobian_equal Add_equal Double_defined)

lemma coprime_4_P192: "coprime (2 * 2) (P secp192k1)"
  by (rule coprime_cert [where u = "0x3FFFFFFFFFFFFFFFFFFFFFFFFFFFFFFFFFFFFFFFBFFFFB8E" and v = 1])
     (simp only: secp192k1_def Curve.select_convs num_arith)

theorem Add_equal_points_witness:
  "addJacobian secp192k1 1 2 1 1 2 1 = Inr (0, 0, 0) \<and>
   Add secp192k1 1 2 1 2 = Inl NilDereference \<and>
   (\<exists>X Y. Double secp192k1 1 2 = Inr (X, Y))"
proof -
  have "1 < P secp192k1" by (simp add: secp192k1_def)
  from Add_equal_points [OF this, of 1 2] coprime_4_P192 show ?thesis by simp
qed

text \<open>
  The claim C3 as stated fails on secp192k1 at the on-curve point \<open>(1, 2)\<close>.
\<close>

theorem Add_Double_differ:
  "IsOnCurve secp192k1 1 2 = Inr True \<and> Add secp192k1 1 2 1 2 \<noteq> Double secp192k1 1 2"
proof -
  have p: "1 < P secp192k1" by (simp add: secp192k1_def)
  have "Add secp192k1 1 2 1 2 = Inl NilDereference" by (rule Add_equal [OF p])
  moreover obtain X Y where "Double secp192k1 1 2 = Inr (X, Y)"
    using Double_defined [OF p coprime_4_P192] by blast
  moreover have "IsOnCurve secp192k1 1 2 = Inr True"
    by (simp add: IsOnCurve_def secp192k1_def big_Mod_def)
  ultimately show ?thesis by simp
qed


lemma ScalarMult_byte_1:
  "ScalarMult c Bx By [1] = pbind (affineFromJacobian c Bx By 1) (\<lambda>xy. Inr (Some xy))"
  by (simp add: ScalarMult_def bit_loop.simps pbind_def)

lemma ScalarMult_byte_2:
  "ScalarMult c Bx By [2] =
     pbind (doubleJacobian c Bx By 1) (\<lambda>(x, y, z).
       pbind (affineFromJacobian c x y z) (\<lambda>xy. Inr (Some xy)))"
  by (simp add: ScalarMult_def bit_loop.simps pbind_def split: sum.splits)

lemma big_ModInverse_one: "1 < p \<Longrightarrow> big_ModInverse 1 p = Some 1"
  by (rule big_ModInverse_Some) simp_all

lemma ScalarMult_one:
  assumes "1 < P c" and "0 \<le> Bx" "Bx < P c" and "0 \<le> By" "By < P c"
  shows "ScalarMult c Bx By [1] = Inr (Some (Bx, By))"
  using assms
  by (simp add: ScalarMult_byte_1 affineFromJacobian_def big_ModInverse_one big_Mod_def pbind_def)

lemma ScalarMult_two_defined:
  assumes "1 < P c" and "coprime (2 * By) (P c)"
  shows "\<exists>X Y. ScalarMult c Bx By [2] = Inr (Some (X, Y))"
proof -
  from Double_defined [OF assms] obtain X Y where "Double c Bx By = Inr (X, Y)" by blast
  then show ?thesis
    by (auto simp: ScalarMult_byte_2 Double_def pbind_def split: sum.splits)
qed

lemma Bytes_2: "big_Bytes 2 = [2]"
  by (simp add: big_Bytes_def Bytes_from.simps)

lemma secp192k1_range:
  "1 < P secp192k1" "0 \<le> Gx secp192k1" "Gx secp192k1 < P secp192k1"
  "0 \<le> Gy secp192k1" "Gy secp192k1 < P secp192k1" "2 < N secp192k1"
  by (simp_all add: secp192k1_def)

lemma secp192k1_G_one:
  "ScalarBaseMult secp192k1 [1] = Inr (Some (Gx secp192k1, Gy secp192k1))"
  unfolding ScalarBaseMult_def by (rule ScalarMult_one) (rule secp192k1_range)+

lemma add_multiples_generator:
  "add_multiples secp192k1 [1] [1] = Inl NilDereference"
  by (simp add: add_multiples_def pbind_def secp192k1_G_one Add_equal secp192k1_range(1))

lemma coprime_2Gy_P192: "coprime (2 * Gy secp192k1) (P secp192k1)"
  by (rule coprime_cert [where u = "0x86AA0795489A26C58B9BB3D57C9430BEFE009C050F552623"
        and v = "0xA34389834EC87796493AB1E089B28FF4D39174BCAFA0F7FB"])
     (simp only: secp192k1_def Curve.select_convs num_arith)

text \<open>
  The equation of the specification at equal scalars, on secp192k1 with \<open>k1 = k2 = 1\<close>: both
  multiples are the generator, so \<open>Add\<close> receives the same point twice and panics, while
  \<open>ScalarMult(G, 2)\<close> doubles and returns a point; no multiple is absent.  The equation for
  two multiples that are different points rests on the group law of the curve, which
  this theory does not develop.
\<close>

lemma homomorphism_at_equal_scalars:
  "ScalarBaseMult secp192k1 (big_Bytes 1) = Inr (Some (Gx secp192k1, Gy secp192k1)) \<and>
   ScalarBaseMult secp192k1 (big_Bytes ((1 + 1) mod N secp192k1)) \<noteq> Inr None \<and>
   ScalarBaseMult secp192k1 (big_Bytes ((1 + 1) mod N secp192k1)) \<noteq>
     add_multiples secp192k1 (big_Bytes 1) (big_Bytes 1)"
proof -
  have n: "(1 + 1) mod N secp192k1 = 2" using secp192k1_range(6) by simp
  obtain X Y where two: "ScalarBaseMult secp192k1 [2] = Inr (Some (X, Y))"
    unfolding ScalarBaseMult_def
    using ScalarMult_two_defined [OF secp192k1_range(1) coprime_2Gy_P192] by blast
  show ?thesis
    unfolding n Bytes_1 Bytes_2
    by (simp add: secp192k1_G_one two add_multiples_generator)
qed

end
